theory Spec2Isabelle
  imports Main "HOL-Library.Multiset"
begin

section \<open>Data model of dupescout\<close>

text \<open>
  Go error values. The source builds its own errors with \<open>fmt.Errorf\<close>, whose value is
  its message; the errors of the key generator and of the directory walk are values
  handed in from outside, of either kind.
\<close>

datatype error = Errorf string | SysErr string

text \<open>\<open>type pair struct { key string; path string }\<close>\<close>

record pair =
  key :: string
  path :: string

text \<open>
  A Go slice of strings: \<open>NilSlice\<close> is the nil slice, \<open>Slice xs\<close> a non-nil one
  (\<open>[]string{}\<close> is \<open>Slice []\<close>).
\<close>

datatype slice = NilSlice | Slice "string list"

fun append_slice :: "slice \<Rightarrow> string list \<Rightarrow> slice" where
  "append_slice NilSlice [] = NilSlice"
| "append_slice NilSlice (y # ys) = Slice (y # ys)"
| "append_slice (Slice xs) ys = Slice (xs @ ys)"

text \<open>
  The aggregation map \<open>xsync.MapOf[string, []string]\<close>: its entries, kept here in the
  order in which their keys were first stored. \<open>Load\<close> and \<open>Store\<close> are the two
  operations \<open>consumePairs\<close> uses; \<open>Store\<close> replaces the value of a key that is
  present and adds an entry otherwise.
\<close>

type_synonym mapof = "(string \<times> string list) list"

fun Load :: "mapof \<Rightarrow> string \<Rightarrow> string list option" where
  "Load [] k = None"
| "Load ((k', v) # m) k = (if k' = k then Some v else Load m k)"

fun Store :: "mapof \<Rightarrow> string \<Rightarrow> string list \<Rightarrow> mapof" where
  "Store [] k v = [(k, v)]"
| "Store ((k', v') # m) k v = (if k' = k then (k, v) # m else (k', v') # Store m k v)"

section \<open>The pair aggregator\<close>

text \<open>
  The body of the loop \<open>for p := range dup.pairs\<close> of \<open>consumePairs\<close> for one pair:
  the map after it, and the paths it sends to \<open>dupesChan\<close>, in order.
\<close>

definition consumePair :: "bool \<Rightarrow> mapof \<Rightarrow> pair \<Rightarrow> mapof \<times> string list" where
  "consumePair streaming m p =
     (case Load m (key p) of
        Some paths \<Rightarrow>
          (Store m (key p) (paths @ [path p]),
           if streaming
           then (if length paths = 1 then [paths ! 0] else []) @ [path p]
           else [])
      | None \<Rightarrow> (Store m (key p) [path p], []))"

text \<open>The loop over the pairs received from the channel, in the order received.\<close>

fun consumeLoop :: "bool \<Rightarrow> mapof \<Rightarrow> pair list \<Rightarrow> mapof \<times> string list" where
  "consumeLoop streaming m [] = (m, [])"
| "consumeLoop streaming m (p # ps) =
     (case consumePair streaming m p of
        (m', e) \<Rightarrow> (case consumeLoop streaming m' ps of (m'', es) \<Rightarrow> (m'', e @ es)))"


text \<open>
  \<open>processResults\<close>: \<open>m.Range\<close> visits every entry once; the library does not say in
  which order (it walks its hash table), so the order of the visit is the parameter
  \<open>ord\<close>, which rearranges the entries. \<open>res\<close> starts as \<open>[]string{}\<close>.
\<close>

definition processResults :: "(mapof \<Rightarrow> mapof) \<Rightarrow> mapof \<Rightarrow> slice" where
  "processResults ord m =
     foldl (\<lambda>res (k, paths). if 1 < length paths then append_slice res paths else res)
       (Slice []) (ord m)"

text \<open>
  \<open>consumePairs\<close> as a whole, on the pairs it receives before the channel is closed:
  the paths it sends on \<open>dupesChan\<close>, whether it closes \<open>dupesChan\<close>, and what it
  sends on \<open>results\<close>.
\<close>

definition consumePairs :: "(mapof \<Rightarrow> mapof) \<Rightarrow> bool \<Rightarrow> pair list \<Rightarrow> string list \<times> bool \<times> slice option" where
  "consumePairs ord st ps =
     (case consumeLoop st [] ps of
        (m, out) \<Rightarrow>
          if st then (out, True, None)
          else (out, False, Some (processResults ord m)))"

text \<open>
  The groups in the words of the specification: the paths of the pairs with key \<open>k\<close> in
  the order received, the keys in the order of their first pair (the order of
  discovery), the groups in that order, a list of groups flattened to the paths of those
  with at least two members, and the batch result the specification describes.
  \<open>sing\<close> is the group of a key while it has one member.
\<close>

definition paths_of :: "string \<Rightarrow> pair list \<Rightarrow> string list" where
  "paths_of k ps = map path (filter (\<lambda>p. key p = k) ps)"

definition discovery_keys :: "pair list \<Rightarrow> string list" where
  "discovery_keys ps = rev (remdups (rev (map key ps)))"

definition groups_of :: "pair list \<Rightarrow> mapof" where
  "groups_of ps = map (\<lambda>k. (k, paths_of k ps)) (discovery_keys ps)"

definition flatten_dupes :: "mapof \<Rightarrow> string list" where
  "flatten_dupes m = concat (map snd (filter (\<lambda>e. 1 < length (snd e)) m))"

definition sing :: "pair list \<Rightarrow> string \<Rightarrow> string list" where
  "sing ps k = (if length (paths_of k ps) = 1 then paths_of k ps else [])"

definition spec_batch :: "pair list \<Rightarrow> string list" where
  "spec_batch ps = flatten_dupes (groups_of ps)"

section \<open>The shutdown channel\<close>

text \<open>
  \<open>dup.shutdown\<close> is a channel of capacity 1 that carries the signal and is closed by
  \<open>gracefulShutdown\<close>. \<open>shuttingDown\<close> is a receive that does not block: it succeeds
  on a closed channel, and on a buffered signal, which it takes out of the channel.
\<close>

datatype sigchan = SigEmpty | SigBuffered | SigClosed

definition shuttingDown :: "sigchan \<Rightarrow> bool \<times> sigchan" where
  "shuttingDown ch =
     (case ch of SigEmpty \<Rightarrow> (False, SigEmpty)
               | SigBuffered \<Rightarrow> (True, SigEmpty)
               | SigClosed \<Rightarrow> (True, SigClosed))"

section \<open>The pair producer\<close>

type_synonym keygen = "string \<Rightarrow> string \<times> error option"

text \<open>
  \<open>producePair\<close> after its shutdown check, up to the send: the key generator's error
  is returned as it is, an empty key is an error of the producer's own
  (\<open>empty_key_error\<close>, the value of its \<open>fmt.Errorf\<close>), and otherwise the pair to
  send is built.
\<close>

definition empty_key_error :: "string \<Rightarrow> error" where
  "empty_key_error pth = Errorf (''key generator returned an empty key for path: '' @ pth)"

definition produce :: "keygen \<Rightarrow> string \<Rightarrow> error + pair" where
  "produce keyGen pth =
     (case keyGen pth of
        (k, Some e) \<Rightarrow> Inl e
      | (k, None) \<Rightarrow>
          if k = [] then Inl (empty_key_error pth)
          else Inr \<lparr>key = k, path = pth\<rparr>)"

text \<open>
  \<open>producePair\<close> as a whole, with what it did: the error it returns, the calls of the
  key generator and the sends on the pair channel in order, and the shutdown channel
  after its check.
\<close>

datatype effect = CallKeyGen string | SendPair pair

definition producePair :: "sigchan \<Rightarrow> keygen \<Rightarrow> string \<Rightarrow> error option \<times> effect list \<times> sigchan" where
  "producePair ch keyGen pth =
     (case shuttingDown ch of
        (True, ch') \<Rightarrow> (None, [], ch')
      | (False, ch') \<Rightarrow>
          (case produce keyGen pth of
             Inl e \<Rightarrow> (Some e, [CallKeyGen pth], ch')
           | Inr p \<Rightarrow> (None, [CallKeyGen pth, SendPair p], ch')))"

section \<open>The file tree and the walk\<close>

text \<open>
  What \<open>filepath.WalkDir\<close> finds: a regular file with the result of \<open>de.Info()\<close> (an
  error, or the size), an entry that is neither a directory nor a regular file (a
  symbolic link, a device), or a directory with the error of reading it, if any, and
  the entries read.
\<close>

datatype entry =
    Regular string "error + nat"
  | Other string
  | Dir string "error option" "entry list"

fun name_of :: "entry \<Rightarrow> string" where
  "name_of (Regular n i) = n"
| "name_of (Other n) = n"
| "name_of (Dir n e ds) = n"

fun IsDir :: "entry \<Rightarrow> bool" where
  "IsDir (Dir n e ds) = True"
| "IsDir d = False"

text \<open>
  \<open>filepath.Join\<close> of the path of a directory and the name of one of its entries (the
  cleaning of the path it also does is left out).
\<close>

definition join :: "string \<Rightarrow> string \<Rightarrow> string" where
  "join d n = d @ ''/'' @ n"

text \<open>
  The configuration as \<open>run\<close> and \<open>search\<close> read it, after \<open>c.defaults()\<close>: the root
  \<open>c.Path\<close>, the two filter predicates, the key generator and the worker limit. The
  declaration of \<open>Cfg\<close> and its methods are not among the sources, so the predicates
  and the generator are parameters.
\<close>

record cfg =
  Path :: string
  skipDir :: "string \<Rightarrow> bool"
  skipFile :: "string \<Rightarrow> bool"
  KeyGenerator :: keygen
  Workers :: int

text \<open>
  The function \<open>search\<close> passes to \<open>WalkDir\<close>: what it returns, or that it reached
  \<open>dup.g.Go\<close> for a producer of the path (after which it returns nil). \<open>sd\<close> is
  the result of its shutdown check. \<open>WalkDir\<close> passes no entry only together with an
  error.
\<close>

datatype walk_ret = RetNil | RetSkipDir | RetErr error

datatype visit_res = Return walk_ret | GoProduce string | NilDeref

definition visit :: "cfg \<Rightarrow> bool \<Rightarrow> string \<Rightarrow> entry option \<Rightarrow> error option \<Rightarrow> visit_res" where
  "visit c sd pth de err =
     (if sd then Return RetNil
      else case err of
        Some e \<Rightarrow> Return (RetErr e)
      | None \<Rightarrow>
         (case de of
            None \<Rightarrow> NilDeref
          | Some d \<Rightarrow>
              if IsDir d \<and> skipDir c pth then Return RetSkipDir
              else (case d of
                 Regular n info \<Rightarrow>
                   if \<not> skipFile c pth
                   then (case info of
                           Inl e \<Rightarrow> Return RetNil
                         | Inr sz \<Rightarrow> if sz = 0 then Return RetNil else GoProduce pth)
                   else Return RetNil
               | _ \<Rightarrow> Return RetNil)))"

text \<open>
  \<open>WalkDir\<close> as a machine that the walker goroutine steps: a stack of frames, one per
  directory being read, each the entries still to walk with their paths. \<open>WStart\<close> is
  before the \<open>Lstat\<close> of the root, \<open>WReport\<close> before the second call that reports the
  error of reading a directory, \<open>WGo\<close> inside \<open>dup.g.Go\<close>.
\<close>

type_synonym frame = "(string \<times> entry) list"

datatype walker =
    WStart string
  | WVisit "frame list"
  | WReport string entry error "frame list"
  | WGo string "frame list"

fun kids :: "string \<Rightarrow> entry \<Rightarrow> frame" where
  "kids p (Dir n e ds) = map (\<lambda>d. (join p (name_of d), d)) ds"
| "kids p d = []"

fun next_entry :: "frame list \<Rightarrow> ((string \<times> entry) \<times> frame list) option" where
  "next_entry [] = None"
| "next_entry ([] # fs) = next_entry fs"
| "next_entry ((pd # rest) # fs) = Some (pd, rest # fs)"

datatype wres = Done "error option" | Cont walker | Stuck

fun walker_step :: "cfg \<Rightarrow> (string \<Rightarrow> error + entry) \<Rightarrow> sigchan \<Rightarrow> walker \<Rightarrow> wres \<times> sigchan" where
  "walker_step c lst ch (WStart root) =
     (case lst root of
        Inl e \<Rightarrow>
          (case shuttingDown ch of
             (sd, ch') \<Rightarrow>
               (case visit c sd root None (Some e) of
                  Return (RetErr e') \<Rightarrow> (Done (Some e'), ch')
                | Return r \<Rightarrow> (Done None, ch')
                | GoProduce q \<Rightarrow> (Cont (WGo q []), ch')
                | NilDeref \<Rightarrow> (Stuck, ch')))
      | Inr d \<Rightarrow> (Cont (WVisit [[(root, d)]]), ch))"
| "walker_step c lst ch (WVisit fs) =
     (case next_entry fs of
        None \<Rightarrow> (Done None, ch)
      | Some ((p, d), fs') \<Rightarrow>
          (case shuttingDown ch of
             (sd, ch') \<Rightarrow>
               (case visit c sd p (Some d) None of
                  Return (RetErr e) \<Rightarrow> (Done (Some e), ch')
                | Return RetSkipDir \<Rightarrow> (Cont (WVisit (if IsDir d then fs' else tl fs')), ch')
                | Return RetNil \<Rightarrow>
                    (case d of
                       Dir n (Some e) ds \<Rightarrow> (Cont (WReport p d e fs'), ch')
                     | Dir n None ds \<Rightarrow> (Cont (WVisit (kids p d # fs')), ch')
                     | _ \<Rightarrow> (Cont (WVisit fs'), ch'))
                | GoProduce q \<Rightarrow> (Cont (WGo q fs'), ch')
                | NilDeref \<Rightarrow> (Stuck, ch'))))"
| "walker_step c lst ch (WReport p d e fs) =
     (case shuttingDown ch of
        (sd, ch') \<Rightarrow>
          (case visit c sd p (Some d) (Some e) of
             Return (RetErr e') \<Rightarrow> (Done (Some e'), ch')
           | Return RetSkipDir \<Rightarrow> (Cont (WVisit fs), ch')
           | Return RetNil \<Rightarrow> (Cont (WVisit (kids p d # fs)), ch')
           | GoProduce q \<Rightarrow> (Cont (WGo q (kids p d # fs)), ch')
           | NilDeref \<Rightarrow> (Stuck, ch')))"
| "walker_step c lst ch (WGo q fs) = (Stuck, ch)"

section \<open>The goroutines of one search\<close>

text \<open>
  One call of \<open>GetResults\<close> or \<open>StreamResults\<close> runs these goroutines: the caller's
  (inside \<open>run\<close>), the pair consumer, the shutdown listener, and the tasks of the
  \<open>errgroup\<close>: one walker and the producers it starts. Each goroutine is a small
  machine; an event steps one of them, and a step that is blocked is not enabled. The
  interleaving of the goroutines is the list of events of an execution.
\<close>

datatype entrypoint = GetResults | StreamResults bool

fun resultsChan_given :: "entrypoint \<Rightarrow> bool" where
  "resultsChan_given GetResults = True"
| "resultsChan_given (StreamResults b) = False"

fun dupesChan_given :: "entrypoint \<Rightarrow> bool" where
  "dupesChan_given GetResults = False"
| "dupesChan_given (StreamResults b) = b"

text \<open>
  What is fixed during a search: the configuration, the file system (\<open>Lstat\<close> of a root
  path), the entry point called (\<open>StreamResults b\<close>: \<open>b\<close> says that \<open>dupesChan\<close> is
  not nil) and the order in which \<open>Range\<close> visits the aggregation map.
\<close>

record world =
  conf :: cfg
  lstat :: "string \<Rightarrow> error + entry"
  api :: entrypoint
  tbl_order :: "mapof \<Rightarrow> mapof"

datatype prod = PStart string | PSend pair

datatype task = Walker walker | Producer prod

text \<open>
  The caller's goroutine: \<open>MInit\<close> at the start of \<open>run\<close>, \<open>MGo\<close> before
  \<open>dup.g.Go(search)\<close>, \<open>MWait\<close> in \<open>dup.g.Wait()\<close>, \<open>MClose err\<close> before
  \<open>close(dup.pairs)\<close>, \<open>MRet err\<close> when \<open>run\<close> has returned \<open>err\<close> (where
  \<open>StreamResults\<close> returns, and \<open>GetResults\<close> receives from \<open>results\<close>), \<open>GDone r err\<close>
  when \<open>GetResults\<close> has returned.
\<close>

datatype mpc = MInit | MGo | MWait | MClose "error option" | MRet "error option"
  | GDone slice "error option"

text \<open>
  \<open>gracefulShutdown\<close>: not started, before \<open>signal.Notify\<close>, after it, parked in
  \<open><-shutdown\<close>, having received the signal, having closed the channel.
\<close>

datatype lpc = LOff | LInit | LArmed | LWait | LGot | LClosed

text \<open>
  \<open>consumePairs\<close>: not started, at the head of its loop, sending the paths of one pair
  to \<open>dupesChan\<close>, after the loop, returned.
\<close>

datatype cpc = COff | CLoop | CEmit "string list" | CEnd | CDone

text \<open>
  The state of a search. \<open>active\<close> are the tasks of the group that have started and not
  returned, each holding one slot of the limit; \<open>gerr\<close> is the first error of the
  group; \<open>pairs\<close> is the buffer of the pair channel, oldest first; \<open>dupes\<close> are the
  paths sent on \<open>dupesChan\<close> so far (the caller is taken to receive what is sent);
  \<open>results\<close> is the buffer of the result channel. The last four fields are history:
  the pairs sent on the pair channel, the pairs the consumer received, the paths the
  key generator was called on, and the errors that tasks returned, each in order.
\<close>

record state =
  mainpc :: mpc
  lis :: lpc
  shutdown :: sigchan
  active :: "task list"
  gerr :: "error option"
  pairs :: "pair list"
  pclosed :: bool
  cons :: cpc
  cmap :: mapof
  dupes :: "string list"
  dclosed :: bool
  results :: "slice option"
  sent :: "pair list"
  seen :: "pair list"
  gens :: "string list"
  failed :: "error list"

definition init :: state where
  "init = \<lparr>mainpc = MInit, lis = LOff, shutdown = SigEmpty, active = [], gerr = None,
     pairs = [], pclosed = False, cons = COff, cmap = [], dupes = [], dclosed = False,
     results = None, sent = [], seen = [], gens = [], failed = []\<rparr>"

text \<open>\<open>make(chan *pair, 500)\<close>\<close>

definition pairs_cap :: nat where
  "pairs_cap = 500"

text \<open>
  \<open>g.SetLimit(workers)\<close> and \<open>g.Go\<close>: a task is added when the tasks that are active
  are fewer than the limit (a negative limit is no limit); until then \<open>Go\<close> blocks.
\<close>

definition can_go :: "int \<Rightarrow> task list \<Rightarrow> bool" where
  "can_go n ts = (n < 0 \<or> int (length ts) < n)"

text \<open>
  A task returns: it leaves the group, and its error is kept if it is the first.
\<close>

definition finish :: "nat \<Rightarrow> error option \<Rightarrow> state \<Rightarrow> state" where
  "finish i r s =
     s\<lparr>active := take i (active s) @ drop (Suc i) (active s),
       gerr := (case gerr s of None \<Rightarrow> r | Some e \<Rightarrow> Some e),
       failed := failed s @ (case r of None \<Rightarrow> [] | Some e \<Rightarrow> [e])\<rparr>"

definition main_step :: "world \<Rightarrow> state \<Rightarrow> state option" where
  "main_step w s =
     (case mainpc s of
        MInit \<Rightarrow>
          if dupesChan_given (api w) \<or> resultsChan_given (api w)
          then Some (s\<lparr>cons := CLoop, lis := LInit, mainpc := MGo\<rparr>)
          else Some (s\<lparr>mainpc :=
                 MRet (Some (Errorf ''either resultsChan or dupesChan must be provided''))\<rparr>)
      | MGo \<Rightarrow>
          if can_go (Workers (conf w)) (active s)
          then Some (s\<lparr>active := active s @ [Walker (WStart (Path (conf w)))], mainpc := MWait\<rparr>)
          else None
      | MWait \<Rightarrow> if active s = [] then Some (s\<lparr>mainpc := MClose (gerr s)\<rparr>) else None
      | MClose e \<Rightarrow> Some (s\<lparr>pclosed := True, mainpc := MRet e\<rparr>)
      | MRet e \<Rightarrow>
          (case api w of
             GetResults \<Rightarrow>
               (case results s of
                  Some r \<Rightarrow> Some (s\<lparr>results := None, mainpc := GDone r e\<rparr>)
                | None \<Rightarrow> None)
           | StreamResults b \<Rightarrow> None)
      | GDone r e \<Rightarrow> None)"

definition lis_step :: "state \<Rightarrow> state option" where
  "lis_step s =
     (case lis s of
        LInit \<Rightarrow> Some (s\<lparr>lis := LArmed\<rparr>)
      | LArmed \<Rightarrow>
          if shutdown s = SigBuffered then Some (s\<lparr>shutdown := SigEmpty, lis := LGot\<rparr>)
          else Some (s\<lparr>lis := LWait\<rparr>)
      | LGot \<Rightarrow> Some (s\<lparr>shutdown := SigClosed, lis := LClosed\<rparr>)
      | _ \<Rightarrow> None)"

text \<open>
  A signal arrives: it is handed to the listener parked in its receive, or put into the
  channel's buffer if that is empty, or lost. Before \<open>signal.Notify\<close> the process is not
  subscribed; a signal after the channel is closed is not part of this model.
\<close>

definition signal_step :: "state \<Rightarrow> state option" where
  "signal_step s =
     (case lis s of
        LWait \<Rightarrow> Some (s\<lparr>lis := LGot\<rparr>)
      | LArmed \<Rightarrow> if shutdown s = SigEmpty then Some (s\<lparr>shutdown := SigBuffered\<rparr>) else None
      | LGot \<Rightarrow> if shutdown s = SigEmpty then Some (s\<lparr>shutdown := SigBuffered\<rparr>) else None
      | _ \<Rightarrow> None)"

definition cons_step :: "world \<Rightarrow> state \<Rightarrow> state option" where
  "cons_step w s =
     (case cons s of
        CLoop \<Rightarrow>
          (case pairs s of
             p # ps \<Rightarrow>
               (case consumePair (dupesChan_given (api w)) (cmap s) p of
                  (m', e) \<Rightarrow>
                    Some (s\<lparr>pairs := ps, seen := seen s @ [p], cmap := m',
                            cons := (if e = [] then CLoop else CEmit e)\<rparr>))
           | [] \<Rightarrow> if pclosed s then Some (s\<lparr>cons := CEnd\<rparr>) else None)
      | CEmit [] \<Rightarrow> Some (s\<lparr>cons := CLoop\<rparr>)
      | CEmit (x # xs) \<Rightarrow>
          Some (s\<lparr>dupes := dupes s @ [x], cons := (if xs = [] then CLoop else CEmit xs)\<rparr>)
      | CEnd \<Rightarrow>
          if dupesChan_given (api w) then Some (s\<lparr>dclosed := True, cons := CDone\<rparr>)
          else Some (s\<lparr>results := Some (processResults (tbl_order w) (cmap s)), cons := CDone\<rparr>)
      | _ \<Rightarrow> None)"

definition task_step :: "world \<Rightarrow> state \<Rightarrow> nat \<Rightarrow> state option" where
  "task_step w s i =
     (if i < length (active s) then
        (case active s ! i of
           Producer (PStart pth) \<Rightarrow>
             (case shuttingDown (shutdown s) of
                (sd, ch') \<Rightarrow>
                  if sd then Some (finish i None (s\<lparr>shutdown := ch'\<rparr>))
                  else (case produce (KeyGenerator (conf w)) pth of
                          Inl e \<Rightarrow>
                            Some (finish i (Some e) (s\<lparr>shutdown := ch', gens := gens s @ [pth]\<rparr>))
                        | Inr p \<Rightarrow>
                            Some (s\<lparr>shutdown := ch', gens := gens s @ [pth],
                                    active := (active s)[i := Producer (PSend p)]\<rparr>)))
         | Producer (PSend p) \<Rightarrow>
             if \<not> pclosed s \<and> length (pairs s) < pairs_cap
             then Some (finish i None (s\<lparr>pairs := pairs s @ [p], sent := sent s @ [p]\<rparr>))
             else None
         | Walker (WGo q fs) \<Rightarrow>
             if can_go (Workers (conf w)) (active s)
             then Some (s\<lparr>active := (active s)[i := Walker (WVisit fs)] @ [Producer (PStart q)]\<rparr>)
             else None
         | Walker wk \<Rightarrow>
             (case walker_step (conf w) (lstat w) (shutdown s) wk of
                (Done r, ch') \<Rightarrow> Some (finish i r (s\<lparr>shutdown := ch'\<rparr>))
              | (Cont wk', ch') \<Rightarrow> Some (s\<lparr>shutdown := ch', active := (active s)[i := Walker wk']\<rparr>)
              | (Stuck, ch') \<Rightarrow> None))
      else None)"

datatype event = EvMain | EvListener | EvSignal | EvConsumer | EvTask nat

fun step :: "world \<Rightarrow> state \<Rightarrow> event \<Rightarrow> state option" where
  "step w s EvMain = main_step w s"
| "step w s EvListener = lis_step s"
| "step w s EvSignal = signal_step s"
| "step w s EvConsumer = cons_step w s"
| "step w s (EvTask i) = task_step w s i"

text \<open>
  The state after a list of events, from \<open>s\<close>; an event that is not enabled when its
  turn comes changes nothing. The states of a search are \<open>exec w init evs\<close>.
\<close>

fun exec :: "world \<Rightarrow> state \<Rightarrow> event list \<Rightarrow> state" where
  "exec w s [] = s"
| "exec w s (ev # evs) = (case step w s ev of None \<Rightarrow> exec w s evs | Some s' \<Rightarrow> exec w s' evs)"

section \<open>Properties of executions\<close>

text \<open>
  The predicates the theorems are stated with: whether the consumer streams, whether the
  goroutines have been started, where the caller is, the paths the consumer still has
  to send for the pair in hand, whether the consumer has left its loop, the first of
  a list of errors, the error \<open>run\<close> is about to return or has returned, and which
  tasks are walkers.
\<close>

definition streaming :: "world \<Rightarrow> bool" where
  "streaming w = dupesChan_given (api w)"

definition launched :: "state \<Rightarrow> bool" where
  "launched s = (cons s \<noteq> COff)"

fun returned :: "mpc \<Rightarrow> bool" where
  "returned (MRet e) = True"
| "returned (GDone r e) = True"
| "returned pc = False"


fun pending :: "cpc \<Rightarrow> string list" where
  "pending (CEmit xs) = xs"
| "pending pc = []"

definition loop_exited :: "state \<Rightarrow> bool" where
  "loop_exited s = (cons s = CEnd \<or> cons s = CDone)"

definition first_error :: "error list \<Rightarrow> error option" where
  "first_error es = (case es of [] \<Rightarrow> None | e # es' \<Rightarrow> Some e)"

fun ret_err :: "mpc \<Rightarrow> error option option" where
  "ret_err (MClose e) = Some e"
| "ret_err (MRet e) = Some e"
| "ret_err (GDone r e) = Some e"
| "ret_err pc = None"


text \<open>
  What holds in every state of a search (\<open>inv_reach\<close> below): tasks are active only
  while the caller waits; the pair channel is closed exactly when \<open>run\<close> has returned
  from a started search; the pairs sent are the pairs received followed by the buffer;
  the consumer leaves its loop only on the closed, empty channel; its map and the paths
  it has sent or holds are those of \<open>consumeLoop\<close> on the pairs received; the error
  of the group is the first a task returned, and it is what \<open>run\<close> returns; the
  result channel holds only the result of \<open>processResults\<close>, and \<open>dupesChan\<close> is
  closed only by the consumer, when it returns.
\<close>

definition inv :: "world \<Rightarrow> state \<Rightarrow> bool" where
  "inv w s =
    ((active s \<noteq> [] \<longrightarrow> mainpc s = MWait)
   \<and> (pclosed s = (launched s \<and> returned (mainpc s)))
   \<and> (launched s = (mainpc s \<noteq> MInit \<and> (streaming w \<or> resultsChan_given (api w))))
   \<and> (\<not> launched s \<longrightarrow> (mainpc s = MInit \<or> (\<exists>e. mainpc s = MRet e)) \<and> sent s = [])
   \<and> sent s = seen s @ pairs s
   \<and> (loop_exited s \<longrightarrow> pclosed s \<and> pairs s = [])
   \<and> consumeLoop (streaming w) [] (seen s) = (cmap s, dupes s @ pending (cons s))
   \<and> gerr s = first_error (failed s)
   \<and> (launched s \<longrightarrow> (\<forall>e. ret_err (mainpc s) = Some e \<longrightarrow> e = gerr s))
   \<and> (\<forall>r. results s = Some r \<longrightarrow>
         r = processResults (tbl_order w) (cmap s) \<and> cons s = CDone \<and> (\<exists>e. mainpc s = MRet e))
   \<and> (\<forall>r e. mainpc s = GDone r e \<longrightarrow>
         r = processResults (tbl_order w) (cmap s) \<and> cons s = CDone \<and> api w = GetResults)
   \<and> (cons s = CDone \<and> \<not> streaming w \<longrightarrow> results s \<noteq> None \<or> (\<exists>r e. mainpc s = GDone r e))
   \<and> (dclosed s \<longrightarrow> cons s = CDone \<and> streaming w))"



text \<open>
  The walker is alone in a group of limit one, inside \<open>dup.g.Go\<close>, and the pair
  channel is open and empty.
\<close>

definition blocked :: "world \<Rightarrow> state \<Rightarrow> bool" where
  "blocked w s =
     (Workers (conf w) = 1 \<and> mainpc s = MWait \<and> (\<exists>q fs. active s = [Walker (WGo q fs)])
      \<and> cons s = CLoop \<and> pairs s = [] \<and> \<not> pclosed s)"




section \<open>An example search\<close>

text \<open>
  A directory \<open>r\<close> with three files of non-zero size; the key generator gives \<open>a\<close>
  and \<open>b\<close> the key \<open>1\<close> and \<open>c\<close> the key \<open>2\<close>. \<open>ex_walk\<close> is the schedule in
  which the walker and each producer run one after the other until the group is empty
  and the caller has left \<open>Wait\<close>.
\<close>

definition ex_cfg :: cfg where
  "ex_cfg = \<lparr>Path = ''r'', skipDir = (\<lambda>p. False), skipFile = (\<lambda>p. False),
     KeyGenerator = (\<lambda>p. (if p = ''r/c'' then ''2'' else ''1'', None)), Workers = 2\<rparr>"

definition ex_tree :: entry where
  "ex_tree = Dir ''r'' None [Regular ''a'' (Inr 3), Regular ''b'' (Inr 3), Regular ''c'' (Inr 3)]"

definition ex_world :: "entrypoint \<Rightarrow> world" where
  "ex_world a = \<lparr>conf = ex_cfg,
     lstat = (\<lambda>p. if p = ''r'' then Inr ex_tree else Inl (SysErr ''no such file or directory'')),
     api = a, tbl_order = rev\<rparr>"

definition ex_walk :: "event list" where
  "ex_walk = [EvMain, EvMain, EvTask 0, EvTask 0,
     EvTask 0, EvTask 0, EvTask 1, EvTask 1,
     EvTask 0, EvTask 0, EvTask 1, EvTask 1,
     EvTask 0, EvTask 0, EvTask 1, EvTask 1,
     EvTask 0, EvMain]"

text \<open>
  After \<open>ex_walk\<close>: the caller closes the pair channel and the consumer runs until it
  has returned.
\<close>

definition ex_drain :: "event list" where
  "ex_drain = [EvMain, EvConsumer, EvConsumer, EvConsumer, EvConsumer, EvConsumer,
     EvConsumer, EvConsumer]"











definition ex_one_worker :: world where
  "ex_one_worker = \<lparr>conf = ex_cfg\<lparr>Workers := 1\<rparr>,
     lstat = (\<lambda>p. if p = ''r'' then Inr ex_tree else Inl (SysErr ''no such file or directory'')),
     api = GetResults, tbl_order = rev\<rparr>"

definition ex_to_go :: "event list" where
  "ex_to_go = [EvMain, EvMain, EvTask 0, EvTask 0, EvTask 0]"


text \<open>
  A search of \<open>r\<close> in which a signal arrives after \<open>signal.Notify\<close> and before the
  listener has reached its receive; the walker then checks for shutdown at the root, the
  listener goes on to its receive, and the walker and the first producer go on.
\<close>

definition ex_taken :: "event list" where
  "ex_taken = [EvMain, EvMain, EvListener, EvSignal, EvTask 0, EvTask 0, EvListener,
     EvTask 0, EvTask 0, EvTask 1]"

text \<open>
  Four pairs as the consumer may receive them: two keys, each found twice, the key \<open>1\<close>
  first.
\<close>

definition ex_pairs :: "pair list" where
  "ex_pairs = [\<lparr>key = ''1'', path = ''a''\<rparr>, \<lparr>key = ''2'', path = ''b''\<rparr>,
     \<lparr>key = ''1'', path = ''c''\<rparr>, \<lparr>key = ''2'', path = ''d''\<rparr>]"

section \<open>Lemmas\<close>

lemma consumeLoop_snoc:
  "consumeLoop st m (ps @ [p]) =
     (fst (consumePair st (fst (consumeLoop st m ps)) p),
      snd (consumeLoop st m ps) @ snd (consumePair st (fst (consumeLoop st m ps)) p))"
  by (induction ps arbitrary: m) (simp_all add: case_prod_beta)

lemma inv_init: "inv w init"
  by (simp add: inv_def init_def launched_def loop_exited_def first_error_def)

lemma first_error_snoc:
  "first_error (es @ (case r of None \<Rightarrow> [] | Some e \<Rightarrow> [e])) =
     (case first_error es of None \<Rightarrow> r | Some e \<Rightarrow> Some e)"
  by (cases es; cases r) (simp_all add: first_error_def)


lemma main_step_cases:
  assumes "main_step w s = Some s'"
  obtains
    (launch) "mainpc s = MInit" "dupesChan_given (api w) \<or> resultsChan_given (api w)"
             "s' = s\<lparr>cons := CLoop, lis := LInit, mainpc := MGo\<rparr>"
  | (nosink) "mainpc s = MInit" "\<not> (dupesChan_given (api w) \<or> resultsChan_given (api w))"
             "s' = s\<lparr>mainpc := MRet (Some (Errorf ''either resultsChan or dupesChan must be provided''))\<rparr>"
  | (go) "mainpc s = MGo" "can_go (Workers (conf w)) (active s)"
         "s' = s\<lparr>active := active s @ [Walker (WStart (Path (conf w)))], mainpc := MWait\<rparr>"
  | (wait) "mainpc s = MWait" "active s = []" "s' = s\<lparr>mainpc := MClose (gerr s)\<rparr>"
  | (close) e where "mainpc s = MClose e" "s' = s\<lparr>pclosed := True, mainpc := MRet e\<rparr>"
  | (recv) e r where "mainpc s = MRet e" "api w = GetResults" "results s = Some r"
         "s' = s\<lparr>results := None, mainpc := GDone r e\<rparr>"
proof (cases "mainpc s")
  case MInit
  with assms show ?thesis
    by (cases "dupesChan_given (api w) \<or> resultsChan_given (api w)")
       (simp_all add: main_step_def launch nosink)
next
  case MGo
  with assms show ?thesis
    by (cases "can_go (Workers (conf w)) (active s)") (simp_all add: main_step_def go)
next
  case MWait
  with assms show ?thesis
    by (cases "active s = []") (simp_all add: main_step_def wait)
next
  case (MClose e)
  with assms show ?thesis
    by (simp add: main_step_def close)
next
  case (MRet e)
  with assms show ?thesis
    by (cases "api w"; cases "results s") (simp_all add: main_step_def recv)
next
  case (GDone r e)
  with assms show ?thesis
    by (simp add: main_step_def)
qed


lemmas inv_defs = inv_def launched_def loop_exited_def streaming_def

lemma inv_main:
  assumes "inv w s" and "main_step w s = Some s'"
  shows "inv w s'"
  using assms(2)
proof (cases rule: main_step_cases)
  case launch
  with assms(1) show ?thesis by (clarsimp simp: inv_defs)
next
  case nosink
  with assms(1) show ?thesis by (clarsimp simp: inv_defs)
next
  case go
  with assms(1) show ?thesis by (clarsimp simp: inv_defs)
next
  case wait
  with assms(1) show ?thesis by (clarsimp simp: inv_defs)
next
  case (close e)
  with assms(1) show ?thesis by (clarsimp simp: inv_defs)
next
  case (recv e r)
  with assms(1) show ?thesis by (clarsimp simp: inv_defs)
qed


lemma inv_lis: "inv w s \<Longrightarrow> lis_step s = Some s' \<Longrightarrow> inv w s'"
  by (cases "lis s") (clarsimp simp: inv_defs lis_step_def split: if_splits)+

lemma inv_signal: "inv w s \<Longrightarrow> signal_step s = Some s' \<Longrightarrow> inv w s'"
  by (cases "lis s") (clarsimp simp: inv_defs signal_step_def split: if_splits)+

lemma cons_step_cases:
  assumes "cons_step w s = Some s'"
  obtains
    (recv) p ps where "cons s = CLoop" "pairs s = p # ps"
      "s' = s\<lparr>pairs := ps, seen := seen s @ [p],
               cmap := fst (consumePair (dupesChan_given (api w)) (cmap s) p),
               cons := (if snd (consumePair (dupesChan_given (api w)) (cmap s) p) = [] then CLoop
                        else CEmit (snd (consumePair (dupesChan_given (api w)) (cmap s) p)))\<rparr>"
  | (exit) "cons s = CLoop" "pairs s = []" "pclosed s" "s' = s\<lparr>cons := CEnd\<rparr>"
  | (emit0) "cons s = CEmit []" "s' = s\<lparr>cons := CLoop\<rparr>"
  | (emit) x xs where "cons s = CEmit (x # xs)"
      "s' = s\<lparr>dupes := dupes s @ [x], cons := (if xs = [] then CLoop else CEmit xs)\<rparr>"
  | (close) "cons s = CEnd" "dupesChan_given (api w)" "s' = s\<lparr>dclosed := True, cons := CDone\<rparr>"
  | (result) "cons s = CEnd" "\<not> dupesChan_given (api w)"
      "s' = s\<lparr>results := Some (processResults (tbl_order w) (cmap s)), cons := CDone\<rparr>"
proof (cases "cons s")
  case COff
  with assms show ?thesis by (simp add: cons_step_def)
next
  case CLoop
  show ?thesis
  proof (cases "pairs s")
    case Nil
    with assms CLoop show ?thesis
      by (cases "pclosed s") (simp_all add: cons_step_def exit)
  next
    case (Cons p ps)
    with assms CLoop have "s' = s\<lparr>pairs := ps, seen := seen s @ [p],
               cmap := fst (consumePair (dupesChan_given (api w)) (cmap s) p),
               cons := (if snd (consumePair (dupesChan_given (api w)) (cmap s) p) = [] then CLoop
                        else CEmit (snd (consumePair (dupesChan_given (api w)) (cmap s) p)))\<rparr>"
      by (simp add: cons_step_def case_prod_beta)
    with CLoop Cons show ?thesis by (rule recv)
  qed
next
  case (CEmit xs)
  with assms show ?thesis
    by (cases xs) (simp_all add: cons_step_def emit0 emit)
next
  case CEnd
  with assms show ?thesis
    by (cases "dupesChan_given (api w)") (simp_all add: cons_step_def close result)
next
  case CDone
  with assms show ?thesis by (simp add: cons_step_def)
qed

lemma inv_cons:
  assumes "inv w s" and "cons_step w s = Some s'"
  shows "inv w s'"
  using assms(2)
proof (cases rule: cons_step_cases)
  case (recv p ps)
  with assms(1) show ?thesis by (clarsimp simp: inv_defs consumeLoop_snoc)
next
  case exit
  with assms(1) show ?thesis by (clarsimp simp: inv_defs)
next
  case emit0
  with assms(1) show ?thesis by (clarsimp simp: inv_defs)
next
  case (emit x xs)
  with assms(1) show ?thesis by (clarsimp simp: inv_defs)
next
  case close
  with assms(1) show ?thesis by (clarsimp simp: inv_defs)
next
  case result
  with assms(1) show ?thesis by (cases "mainpc s") (clarsimp simp: inv_defs)+
qed


lemma task_step_cases:
  assumes "task_step w s i = Some s'"
  obtains
    (pskip) pth where "i < length (active s)" "active s ! i = Producer (PStart pth)"
      "fst (shuttingDown (shutdown s))"
      "s' = finish i None (s\<lparr>shutdown := snd (shuttingDown (shutdown s))\<rparr>)"
  | (pfail) pth e where "i < length (active s)" "active s ! i = Producer (PStart pth)"
      "\<not> fst (shuttingDown (shutdown s))" "produce (KeyGenerator (conf w)) pth = Inl e"
      "s' = finish i (Some e)
              (s\<lparr>shutdown := snd (shuttingDown (shutdown s)), gens := gens s @ [pth]\<rparr>)"
  | (pgen) pth p where "i < length (active s)" "active s ! i = Producer (PStart pth)"
      "\<not> fst (shuttingDown (shutdown s))" "produce (KeyGenerator (conf w)) pth = Inr p"
      "s' = s\<lparr>shutdown := snd (shuttingDown (shutdown s)), gens := gens s @ [pth],
               active := (active s)[i := Producer (PSend p)]\<rparr>"
  | (psend) p where "i < length (active s)" "active s ! i = Producer (PSend p)"
      "\<not> pclosed s" "length (pairs s) < pairs_cap"
      "s' = finish i None (s\<lparr>pairs := pairs s @ [p], sent := sent s @ [p]\<rparr>)"
  | (wgo) q fs where "i < length (active s)" "active s ! i = Walker (WGo q fs)"
      "can_go (Workers (conf w)) (active s)"
      "s' = s\<lparr>active := (active s)[i := Walker (WVisit fs)] @ [Producer (PStart q)]\<rparr>"
  | (wdone) wk r ch' where "i < length (active s)" "active s ! i = Walker wk"
      "walker_step (conf w) (lstat w) (shutdown s) wk = (Done r, ch')"
      "s' = finish i r (s\<lparr>shutdown := ch'\<rparr>)"
  | (wcont) wk wk' ch' where "i < length (active s)" "active s ! i = Walker wk"
      "walker_step (conf w) (lstat w) (shutdown s) wk = (Cont wk', ch')"
      "s' = s\<lparr>shutdown := ch', active := (active s)[i := Walker wk']\<rparr>"
proof -
  from assms have len: "i < length (active s)"
    by (simp add: task_step_def split: if_splits)
  show ?thesis
  proof (cases "active s ! i")
    case (Producer pr)
    show ?thesis
    proof (cases pr)
      case (PStart pth)
      show ?thesis
      proof (cases "fst (shuttingDown (shutdown s))")
        case True
        with assms len Producer PStart show ?thesis
          by (intro pskip[of pth]) (simp_all add: task_step_def case_prod_beta)
      next
        case False
        show ?thesis
        proof (cases "produce (KeyGenerator (conf w)) pth")
          case (Inl e)
          with assms len Producer PStart False show ?thesis
            by (intro pfail[of pth e]) (simp_all add: task_step_def case_prod_beta)
        next
          case (Inr p)
          with assms len Producer PStart False show ?thesis
            by (intro pgen[of pth p]) (simp_all add: task_step_def case_prod_beta)
        qed
      qed
    next
      case (PSend p)
      with assms len Producer show ?thesis
        by (intro psend[of p]) (simp_all add: task_step_def split: if_splits)
    qed
  next
    case (Walker wk)
    show ?thesis
    proof (cases "\<exists>q fs. wk = WGo q fs")
      case True
      then obtain q fs where "wk = WGo q fs" by blast
      with assms len Walker show ?thesis
        by (intro wgo[of q fs]) (simp_all add: task_step_def split: if_splits)
    next
      case False
      with assms len Walker have ts:
        "(case walker_step (conf w) (lstat w) (shutdown s) wk of
            (Done r, ch') \<Rightarrow> Some (finish i r (s\<lparr>shutdown := ch'\<rparr>))
          | (Cont wk', ch') \<Rightarrow> Some (s\<lparr>shutdown := ch', active := (active s)[i := Walker wk']\<rparr>)
          | (Stuck, ch') \<Rightarrow> None) = Some s'"
        by (cases wk) (simp_all add: task_step_def)
      obtain r ch' where ws: "walker_step (conf w) (lstat w) (shutdown s) wk = (r, ch')"
        by (cases "walker_step (conf w) (lstat w) (shutdown s) wk") auto
      show ?thesis
      proof (cases r)
        case (Done e)
        with ts ws len Walker show ?thesis
          by (intro wdone[of wk e ch']) simp_all
      next
        case (Cont wk')
        with ts ws len Walker show ?thesis
          by (intro wcont[of wk wk' ch']) simp_all
      next
        case Stuck
        with ts ws show ?thesis by simp
      qed
    qed
  qed
qed

lemma inv_active_pc: "inv w s \<Longrightarrow> i < length (active s) \<Longrightarrow> mainpc s = MWait"
  by (cases "active s") (simp_all add: inv_def)

lemma inv_finish:
  assumes "inv w s" and "i < length (active s)"
  shows "inv w (finish i r s)"
proof -
  from assms have pc: "mainpc s = MWait" by (rule inv_active_pc)
  from assms(1) pc show ?thesis
    by (clarsimp simp: inv_defs finish_def first_error_snoc)
qed


lemma inv_task:
  assumes "inv w s" and "task_step w s i = Some s'"
  shows "inv w s'"
proof -
  from assms(2) have len: "i < length (active s)"
    by (simp add: task_step_def split: if_splits)
  with assms(1) have pc: "mainpc s = MWait" by (rule inv_active_pc)
  have sd: "inv w (s\<lparr>shutdown := ch\<rparr>)" for ch
    using assms(1) pc by (clarsimp simp: inv_defs)
  have sdg: "inv w (s\<lparr>shutdown := ch, gens := g\<rparr>)" for ch g
    using assms(1) pc by (clarsimp simp: inv_defs)
  from assms(2) show ?thesis
  proof (cases rule: task_step_cases)
    case (pskip pth)
    have "inv w (finish i None (s\<lparr>shutdown := snd (shuttingDown (shutdown s))\<rparr>))"
      by (rule inv_finish[OF sd]) (simp add: len)
    with pskip(4) show ?thesis by simp
  next
    case (pfail pth e)
    have "inv w (finish i (Some e)
        (s\<lparr>shutdown := snd (shuttingDown (shutdown s)), gens := gens s @ [pth]\<rparr>))"
      by (rule inv_finish[OF sdg]) (simp add: len)
    with pfail(5) show ?thesis by simp
  next
    case (pgen pth p)
    from assms(1) pc have "inv w (s\<lparr>shutdown := snd (shuttingDown (shutdown s)),
        gens := gens s @ [pth], active := (active s)[i := Producer (PSend p)]\<rparr>)"
      by (clarsimp simp: inv_defs)
    with pgen(5) show ?thesis by simp
  next
    case (psend p)
    from assms(1) pc psend(3) have "inv w (s\<lparr>pairs := pairs s @ [p], sent := sent s @ [p]\<rparr>)"
      by (clarsimp simp: inv_defs)
    then have "inv w (finish i None (s\<lparr>pairs := pairs s @ [p], sent := sent s @ [p]\<rparr>))"
      by (rule inv_finish) (simp add: len)
    with psend(5) show ?thesis by simp
  next
    case (wgo q fs)
    from assms(1) pc have
      "inv w (s\<lparr>active := (active s)[i := Walker (WVisit fs)] @ [Producer (PStart q)]\<rparr>)"
      by (clarsimp simp: inv_defs)
    with wgo(4) show ?thesis by simp
  next
    case (wdone wk r ch')
    have "inv w (finish i r (s\<lparr>shutdown := ch'\<rparr>))"
      by (rule inv_finish[OF sd]) (simp add: len)
    with wdone(4) show ?thesis by simp
  next
    case (wcont wk wk' ch')
    from assms(1) pc have "inv w (s\<lparr>shutdown := ch', active := (active s)[i := Walker wk']\<rparr>)"
      by (clarsimp simp: inv_defs)
    with wcont(4) show ?thesis by simp
  qed
qed

lemma inv_step: "inv w s \<Longrightarrow> step w s ev = Some s' \<Longrightarrow> inv w s'"
proof (cases ev)
  case EvMain
  then show "inv w s \<Longrightarrow> step w s ev = Some s' \<Longrightarrow> inv w s'"
    using inv_main[of w s s'] by simp
next
  case EvListener
  then show "inv w s \<Longrightarrow> step w s ev = Some s' \<Longrightarrow> inv w s'"
    using inv_lis[of w s s'] by simp
next
  case EvSignal
  then show "inv w s \<Longrightarrow> step w s ev = Some s' \<Longrightarrow> inv w s'"
    using inv_signal[of w s s'] by simp
next
  case EvConsumer
  then show "inv w s \<Longrightarrow> step w s ev = Some s' \<Longrightarrow> inv w s'"
    using inv_cons[of w s s'] by simp
next
  case (EvTask i)
  then show "inv w s \<Longrightarrow> step w s ev = Some s' \<Longrightarrow> inv w s'"
    using inv_task[of w s i s'] by simp
qed

lemma inv_exec: "inv w s \<Longrightarrow> inv w (exec w s evs)"
proof (induction evs arbitrary: s)
  case Nil
  then show ?case by simp
next
  case (Cons ev evs)
  show ?case
  proof (cases "step w s ev")
    case None
    with Cons show ?thesis by simp
  next
    case (Some s')
    from Cons.prems Some have "inv w s'" by (rule inv_step)
    then have "inv w (exec w s' evs)" by (rule Cons.IH)
    with Some show ?thesis by simp
  qed
qed

lemma inv_reach: "inv w (exec w init evs)"
  by (rule inv_exec) (rule inv_init)


lemma invD:
  assumes "inv w s"
  shows inv_active: "active s \<noteq> [] \<Longrightarrow> mainpc s = MWait"
    and inv_pclosed: "pclosed s = (launched s \<and> returned (mainpc s))"
    and inv_launched: "launched s = (mainpc s \<noteq> MInit \<and> (streaming w \<or> resultsChan_given (api w)))"
    and inv_unlaunched: "\<not> launched s \<Longrightarrow>
          (mainpc s = MInit \<or> (\<exists>e. mainpc s = MRet e)) \<and> sent s = []"
    and inv_fifo: "sent s = seen s @ pairs s"
    and inv_exited: "loop_exited s \<Longrightarrow> pclosed s \<and> pairs s = []"
    and inv_loop: "consumeLoop (streaming w) [] (seen s) = (cmap s, dupes s @ pending (cons s))"
    and inv_gerr: "gerr s = first_error (failed s)"
    and inv_ret: "launched s \<Longrightarrow> ret_err (mainpc s) = Some e \<Longrightarrow> e = gerr s"
    and inv_results: "results s = Some r \<Longrightarrow>
          r = processResults (tbl_order w) (cmap s) \<and> cons s = CDone \<and> (\<exists>e. mainpc s = MRet e)"
    and inv_gdone: "mainpc s = GDone r e \<Longrightarrow>
          r = processResults (tbl_order w) (cmap s) \<and> cons s = CDone \<and> api w = GetResults"
    and inv_done: "cons s = CDone \<Longrightarrow> \<not> streaming w \<Longrightarrow>
          results s \<noteq> None \<or> (\<exists>r e. mainpc s = GDone r e)"
    and inv_dclosed: "dclosed s \<Longrightarrow> cons s = CDone \<and> streaming w"
  using assms unfolding inv_def by blast+






lemmas ex_defs = ex_world_def ex_cfg_def ex_tree_def ex_walk_def init_def main_step_def
  task_step_def cons_step_def lis_step_def signal_step_def can_go_def finish_def
  shuttingDown_def visit_def produce_def join_def consumePair_def processResults_def
  pairs_cap_def



lemma Load_Store: "Load (Store m k v) k' = (if k' = k then Some v else Load m k')"
  by (induction m) auto

lemma Load_None_iff: "Load m k = None \<longleftrightarrow> k \<notin> set (map fst m)"
proof (induction m)
  case Nil
  show ?case by simp
next
  case (Cons e m)
  then show ?case by (cases e) (simp add: image_iff)
qed

lemma keys_Store:
  "map fst (Store m k v) = (if k \<in> set (map fst m) then map fst m else map fst m @ [k])"
proof (induction m)
  case Nil
  show ?case by simp
next
  case (Cons e m)
  then show ?case by (cases e) (simp add: image_iff)
qed

lemma discovery_keys_snoc:
  "discovery_keys (ps @ [p]) =
     (if key p \<in> set (map key ps) then discovery_keys ps else discovery_keys ps @ [key p])"
  by (simp add: discovery_keys_def)

lemma set_discovery_keys: "set (discovery_keys ps) = set (map key ps)"
  by (simp add: discovery_keys_def)

lemma distinct_discovery_keys: "distinct (discovery_keys ps)"
  by (simp add: discovery_keys_def)

lemma paths_of_snoc:
  "paths_of k (ps @ [p]) = (if key p = k then paths_of k ps @ [path p] else paths_of k ps)"
  by (simp add: paths_of_def)

lemma Load_groups_of:
  "Load (groups_of ps) k = (if k \<in> set (map key ps) then Some (paths_of k ps) else None)"
proof -
  have "Load (map (\<lambda>k. (k, f k)) ks) k = (if k \<in> set ks then Some (f k) else None)" for f ks
    by (induction ks) auto
  then show ?thesis by (simp add: groups_of_def set_discovery_keys)
qed

lemma Store_groups_new:
  "k \<notin> set ks \<Longrightarrow> Store (map (\<lambda>k. (k, f k)) ks) k v = map (\<lambda>k. (k, f k)) ks @ [(k, v)]"
  by (induction ks) auto

lemma Store_groups_old:
  "k \<in> set ks \<Longrightarrow> distinct ks \<Longrightarrow>
     Store (map (\<lambda>j. (j, f j)) ks) k v = map (\<lambda>j. (j, if j = k then v else f j)) ks"
  by (induction ks) auto

lemma groups_consumePair:
  "fst (consumePair st (groups_of ps) p) = groups_of (ps @ [p])"
proof (cases "key p \<in> set (map key ps)")
  case True
  then have "key p \<in> set (discovery_keys ps)" by (simp add: set_discovery_keys)
  then have "Store (groups_of ps) (key p) (paths_of (key p) ps @ [path p]) =
      map (\<lambda>j. (j, if j = key p then paths_of (key p) ps @ [path p] else paths_of j ps))
        (discovery_keys ps)"
    unfolding groups_of_def by (rule Store_groups_old) (rule distinct_discovery_keys)
  also have "\<dots> = groups_of (ps @ [p])"
    using True by (auto simp: groups_of_def discovery_keys_snoc paths_of_snoc)
  finally show ?thesis using True by (simp add: consumePair_def Load_groups_of)
next
  case False
  then have nk: "key p \<notin> set (discovery_keys ps)" by (simp add: set_discovery_keys)
  then have "Store (groups_of ps) (key p) [path p] = groups_of ps @ [(key p, [path p])]"
    unfolding groups_of_def by (rule Store_groups_new)
  also have "\<dots> = groups_of (ps @ [p])"
  proof -
    have "\<forall>x \<in> set ps. key x \<noteq> key p" using False by (simp add: image_iff) metis
    then have "paths_of (key p) ps = []" by (simp add: paths_of_def filter_empty_conv)
    moreover have "\<forall>j \<in> set (discovery_keys ps). j \<noteq> key p"
      using nk by blast
    ultimately show ?thesis
      using False by (auto simp: groups_of_def discovery_keys_snoc paths_of_snoc)
  qed
  finally show ?thesis using False by (simp add: consumePair_def Load_groups_of)
qed

lemma consumeLoop_groups: "fst (consumeLoop st [] ps) = groups_of ps"
proof (induction ps rule: rev_induct)
  case Nil
  show ?case by (simp add: groups_of_def discovery_keys_def)
next
  case (snoc p ps)
  then show ?case by (simp add: consumeLoop_snoc groups_consumePair)
qed

lemma processResults_flatten: "processResults ord m = Slice (flatten_dupes (ord m))"
proof -
  have "foldl (\<lambda>res (k, paths). if 1 < length paths then append_slice res paths else res)
          (Slice acc) xs
        = Slice (acc @ concat (map snd (filter (\<lambda>e. 1 < length (snd e)) xs)))" for acc xs
    by (induction xs arbitrary: acc) (auto simp: case_prod_beta)
  from this[of "[]"] show ?thesis by (simp add: processResults_def flatten_dupes_def)
qed

lemma batch_no_emission: "snd (consumeLoop False m ps) = []"
  by (induction ps arbitrary: m) (simp_all add: case_prod_beta consumePair_def split: option.splits)


lemma mset_flatten_perm:
  assumes "mset m' = mset m"
  shows "mset (flatten_dupes m') = mset (flatten_dupes m)"
proof -
  have "mset (flatten_dupes x) =
      sum_mset (image_mset (\<lambda>e. mset (snd e)) (filter_mset (\<lambda>e. 1 < length (snd e)) (mset x)))"
    for x :: mapof
    by (simp add: flatten_dupes_def mset_concat flip: sum_mset_sum_list mset_filter)
      (simp add: comp_def flip: mset_map)
  with assms show ?thesis by simp
qed

lemma mset_concat_map_split:
  "k \<in> set ks \<Longrightarrow> distinct ks \<Longrightarrow>
     mset (concat (map f ks)) = mset (f k) + mset (concat (map f (filter (\<lambda>j. j \<noteq> k) ks)))"
proof (induction ks)
  case Nil
  then show ?case by simp
next
  case (Cons a ks)
  show ?case
  proof (cases "a = k")
    case True
    with Cons.prems have "k \<notin> set ks" by simp
    then have "\<forall>x \<in> set ks. x \<noteq> k" by blast
    then have "filter (\<lambda>j. j \<noteq> k) ks = ks" by (simp add: filter_id_conv)
    with True show ?thesis by simp
  next
    case False
    with Cons show ?thesis by simp
  qed
qed

lemma sing_snoc_other: "j \<noteq> key p \<Longrightarrow> sing (ps @ [p]) j = sing ps j"
  by (simp add: sing_def paths_of_snoc)

lemma emitted_step:
  assumes "key p \<in> set (map key ps)"
  shows "mset (snd (consumePair True (groups_of ps) p)) = mset (sing ps (key p)) + {#path p#}"
    and "sing (ps @ [p]) (key p) = []"
proof -
  from assms obtain q where "q \<in> set ps" "key q = key p" by auto
  then have ne: "paths_of (key p) ps \<noteq> []"
    by (auto simp: paths_of_def filter_empty_conv)
  show "sing (ps @ [p]) (key p) = []"
    using ne by (cases "paths_of (key p) ps") (simp_all add: sing_def paths_of_snoc)
  show "mset (snd (consumePair True (groups_of ps) p)) = mset (sing ps (key p)) + {#path p#}"
    using assms ne
    by (cases "paths_of (key p) ps") (simp_all add: consumePair_def Load_groups_of sing_def)
qed

lemma singles_step:
  "mset (snd (consumePair True (groups_of ps) p))
     + mset (concat (map (sing (ps @ [p])) (discovery_keys (ps @ [p]))))
   = mset (concat (map (sing ps) (discovery_keys ps))) + {#path p#}"
proof (cases "key p \<in> set (map key ps)")
  case True
  then have in_keys: "key p \<in> set (discovery_keys ps)" by (simp add: set_discovery_keys)
  have same: "map (sing (ps @ [p])) (filter (\<lambda>j. j \<noteq> key p) (discovery_keys ps))
            = map (sing ps) (filter (\<lambda>j. j \<noteq> key p) (discovery_keys ps))"
    by (rule map_cong) (simp_all add: sing_snoc_other)
  have "mset (concat (map (sing (ps @ [p])) (discovery_keys ps)))
      = mset (concat (map (sing ps) (filter (\<lambda>j. j \<noteq> key p) (discovery_keys ps))))"
    using mset_concat_map_split[OF in_keys distinct_discovery_keys, of "sing (ps @ [p])"]
    by (simp add: emitted_step(2)[OF True] same)
  moreover have "mset (concat (map (sing ps) (discovery_keys ps)))
      = mset (sing ps (key p))
        + mset (concat (map (sing ps) (filter (\<lambda>j. j \<noteq> key p) (discovery_keys ps))))"
    by (rule mset_concat_map_split[OF in_keys distinct_discovery_keys])
  ultimately show ?thesis
    using True by (simp add: emitted_step(1)[OF True] discovery_keys_snoc)
next
  case False
  then have nk: "key p \<notin> set (discovery_keys ps)" by (simp add: set_discovery_keys)
  have same: "map (sing (ps @ [p])) (discovery_keys ps) = map (sing ps) (discovery_keys ps)"
  proof (rule map_cong)
    fix j assume "j \<in> set (discovery_keys ps)"
    with nk have "j \<noteq> key p" by blast
    then show "sing (ps @ [p]) j = sing ps j" by (rule sing_snoc_other)
  qed simp
  from False have "\<forall>x \<in> set ps. key x \<noteq> key p" by (simp add: image_iff) metis
  then have "paths_of (key p) ps = []" by (simp add: paths_of_def filter_empty_conv)
  then have "sing (ps @ [p]) (key p) = [path p]" by (simp add: sing_def paths_of_snoc)
  moreover have "concat (map (sing (ps @ [p])) (discovery_keys ps))
      = concat (map (sing ps) (discovery_keys ps))"
    by (simp only: same)
  ultimately show ?thesis
    using False by (simp add: discovery_keys_snoc consumePair_def Load_groups_of)
qed

lemma stream_mset:
  "mset (snd (consumeLoop True [] ps)) + mset (concat (map (sing ps) (discovery_keys ps)))
   = mset (map path ps)"
proof (induction ps rule: rev_induct)
  case Nil
  show ?case by (simp add: discovery_keys_def)
next
  case (snoc p ps)
  have "mset (snd (consumeLoop True [] (ps @ [p])))
          + mset (concat (map (sing (ps @ [p])) (discovery_keys (ps @ [p]))))
      = mset (snd (consumeLoop True [] ps))
          + (mset (snd (consumePair True (groups_of ps) p))
             + mset (concat (map (sing (ps @ [p])) (discovery_keys (ps @ [p])))))"
    by (simp add: consumeLoop_snoc consumeLoop_groups)
  also have "\<dots> = mset (snd (consumeLoop True [] ps))
          + (mset (concat (map (sing ps) (discovery_keys ps))) + {#path p#})"
    by (simp only: singles_step)
  also have "\<dots> = mset (map path (ps @ [p]))"
    using snoc.IH by simp
  finally show ?case .
qed

lemma stream_sub: "mset (snd (consumeLoop True [] ps)) \<subseteq># mset (map path ps)"
  using stream_mset[of ps] by (metis mset_subset_eq_add_left)

lemma distinct_sub:
  assumes "mset xs \<subseteq># mset ys" and "distinct ys"
  shows "distinct xs"
proof -
  have le: "count (mset xs) a \<le> 1" for a
  proof -
    have "count (mset xs) a \<le> count (mset ys) a"
      using assms(1) by (rule mset_subset_eq_count)
    also have "\<dots> \<le> 1"
      using assms(2) by (simp add: distinct_count_atmost_1)
    finally show ?thesis .
  qed
  have "count (mset xs) a = (if a \<in> set xs then 1 else 0)" for a
  proof (cases "a \<in> set xs")
    case True
    then have "0 < count (mset xs) a" by simp
    with le[of a] have "count (mset xs) a = 1" by linarith
    with True show ?thesis by simp
  next
    case False
    then show ?thesis by (simp add: count_eq_zero_iff)
  qed
  then show ?thesis by (simp add: distinct_count_atmost_1)
qed

lemma exec_append: "exec w s (xs @ ys) = exec w (exec w s xs) ys"
  by (induction xs arbitrary: s) (simp_all split: option.splits)

lemma ex_walk_state:
  assumes "dupesChan_given a \<or> resultsChan_given a"
  shows "exec (ex_world a) init ex_walk =
    \<lparr>mainpc = MClose None, lis = LInit, shutdown = SigEmpty, active = [], gerr = None,
     pairs = [\<lparr>key = ''1'', path = ''r/a''\<rparr>, \<lparr>key = ''1'', path = ''r/b''\<rparr>,
       \<lparr>key = ''2'', path = ''r/c''\<rparr>],
     pclosed = False, cons = CLoop, cmap = [], dupes = [], dclosed = False, results = None,
     sent = [\<lparr>key = ''1'', path = ''r/a''\<rparr>, \<lparr>key = ''1'', path = ''r/b''\<rparr>,
       \<lparr>key = ''2'', path = ''r/c''\<rparr>],
     seen = [], gens = [''r/a'', ''r/b'', ''r/c''], failed = []\<rparr>"
  using assms by (simp add: ex_defs)

lemma ex_groups: "groups_of ex_pairs = [(''1'', [''a'', ''c'']), (''2'', [''b'', ''d''])]"
  by (simp add: ex_pairs_def groups_of_def discovery_keys_def paths_of_def)

lemma ex_world_simps:
  "conf (ex_world a) = ex_cfg" "api (ex_world a) = a" "tbl_order (ex_world a) = rev"
  by (simp_all add: ex_world_def)



















lemma blocked_step:
  assumes "blocked w s" and "step w s ev = Some s'"
  shows "blocked w s'"
proof (cases ev)
  case EvMain
  with assms show ?thesis by (auto simp: blocked_def main_step_def)
next
  case EvListener
  with assms show ?thesis
    by (cases "lis s") (auto simp: blocked_def lis_step_def split: if_splits)
next
  case EvSignal
  with assms show ?thesis
    by (cases "lis s") (auto simp: blocked_def signal_step_def split: if_splits)
next
  case EvConsumer
  with assms show ?thesis by (auto simp: blocked_def cons_step_def)
next
  case (EvTask i)
  with assms show ?thesis
    by (cases i) (auto simp: blocked_def task_step_def can_go_def)
qed

lemma blocked_exec: "blocked w s \<Longrightarrow> blocked w (exec w s evs)"
proof (induction evs arbitrary: s)
  case Nil
  then show ?case by simp
next
  case (Cons ev evs)
  show ?case
  proof (cases "step w s ev")
    case None
    with Cons show ?thesis by simp
  next
    case (Some s')
    with Cons.prems have "blocked w s'" by (rule blocked_step)
    then have "blocked w (exec w s' evs)" by (rule Cons.IH)
    with Some show ?thesis by simp
  qed
qed

lemma producePair_cancelled:
  "fst (shuttingDown ch) \<Longrightarrow> producePair ch keyGen pth = (None, [], snd (shuttingDown ch))"
  by (cases ch) (simp_all add: producePair_def shuttingDown_def)

lemma ex_to_go_state:
  "exec ex_one_worker init ex_to_go =
    \<lparr>mainpc = MWait, lis = LInit, shutdown = SigEmpty,
     active = [Walker (WGo ''r/a''
        [[(''r/b'', Regular ''b'' (Inr 3)), (''r/c'', Regular ''c'' (Inr 3))], []])],
     gerr = None, pairs = [], pclosed = False, cons = CLoop, cmap = [],
     dupes = [], dclosed = False, results = None, sent = [], seen = [],
     gens = [], failed = []\<rparr>"
  by (simp add: ex_one_worker_def ex_to_go_def ex_cfg_def ex_tree_def init_def main_step_def
      task_step_def can_go_def shuttingDown_def visit_def join_def)











text \<open>
  The shutdown check receives from the channel the listener waits on. A signal that is
  in the buffer when a goroutine checks is taken by the check: the listener then waits
  for another signal, the channel stays open, and the key generator is called for the
  next file.
\<close>

lemma signal_taken_by_check:
  "shutdown (exec (ex_world GetResults) init ex_taken) = SigEmpty
   \<and> lis (exec (ex_world GetResults) init ex_taken) = LWait
   \<and> gens (exec (ex_world GetResults) init ex_taken) = [''r/a'']"
  by (simp add: ex_defs ex_taken_def)
section \<open>Theorems\<close>

text \<open>
  C1. In streaming mode, a pair whose key is stored with exactly one path makes the
  aggregator send that first path and then the new path; a pair whose key is stored with
  more than one path makes it send only the new path; a pair with a new key stores a
  singleton group and sends nothing.
\<close>

theorem C1_streaming_emission:
  "(Load m (key p) = Some [x] \<longrightarrow> snd (consumePair True m p) = [x, path p])
   \<and> (Load m (key p) = Some paths \<and> 1 < length paths \<longrightarrow> snd (consumePair True m p) = [path p])
   \<and> (Load m (key p) = None \<longrightarrow>
        snd (consumePair True m p) = [] \<and> Load (fst (consumePair True m p)) (key p) = Some [path p])"
proof -
  have st: "Load (Store m k v) k = Some v" for m k v
    by (induction m) auto
  show ?thesis
    by (auto simp: consumePair_def st)
qed

theorem C1_streaming_emission_witness:
  "Load [(''k'', [''a''])] (key \<lparr>key = ''k'', path = ''b''\<rparr>) = Some [''a'']
   \<and> snd (consumePair True [(''k'', [''a''])] \<lparr>key = ''k'', path = ''b''\<rparr>) = [''a'', ''b'']
   \<and> Load [(''k'', [''a'', ''b''])] (key \<lparr>key = ''k'', path = ''c''\<rparr>) = Some [''a'', ''b'']
   \<and> snd (consumePair True [(''k'', [''a'', ''b''])] \<lparr>key = ''k'', path = ''c''\<rparr>) = [''c'']
   \<and> Load [(''k'', [''a''])] (key \<lparr>key = ''j'', path = ''d''\<rparr>) = None
   \<and> snd (consumePair True [(''k'', [''a''])] \<lparr>key = ''j'', path = ''d''\<rparr>) = []
   \<and> Load (fst (consumePair True [(''k'', [''a''])] \<lparr>key = ''j'', path = ''d''\<rparr>)) ''j'' = Some [''d'']"
  using C1_streaming_emission [of "[(''k'', [''a''])]" "\<lparr>key = ''k'', path = ''b''\<rparr>" "''a''" "[]"]
    C1_streaming_emission [of "[(''k'', [''a'', ''b''])]" "\<lparr>key = ''k'', path = ''c''\<rparr>" "''x''" "[''a'', ''b'']"]
    C1_streaming_emission [of "[(''k'', [''a''])]" "\<lparr>key = ''j'', path = ''d''\<rparr>" "''x''" "[]"]
  by simp



text \<open>
  C3, as stated, fails: it says that the groups of the batch result come in the order of
  discovery. \<open>processResults\<close> takes them in the order in which \<open>Range\<close> visits the
  map. Here the key \<open>1\<close> is discovered first, \<open>Range\<close> visits the key \<open>2\<close> first, and
  the result is not the sequence the specification describes.
\<close>

theorem C3_group_order_counterexample:
  "consumePairs rev False ex_pairs = ([], False, Some (Slice [''b'', ''d'', ''a'', ''c'']))
   \<and> spec_batch ex_pairs = [''a'', ''c'', ''b'', ''d'']"
  by (simp add: consumePairs_def ex_pairs_def consumePair_def processResults_def
      spec_batch_def groups_of_def flatten_dupes_def discovery_keys_def paths_of_def)

text \<open>
  C3, amended. In batch mode the consumer sends nothing on \<open>dupesChan\<close> and sends one
  result: the paths of the groups with at least two members, each group in the order of
  discovery of its paths, the groups in the order in which \<open>Range\<close> visits them. When
  that visit is a rearrangement of the map's entries, the result has the same paths, each
  as often, as the sequence in the order of discovery; it is that sequence when the visit
  is in the order of discovery.
\<close>

theorem C3_batch_result:
  "consumePairs ord False ps = ([], False, Some (Slice (flatten_dupes (ord (groups_of ps)))))
   \<and> (mset (ord (groups_of ps)) = mset (groups_of ps) \<longrightarrow>
        mset (flatten_dupes (ord (groups_of ps))) = mset (spec_batch ps))
   \<and> (ord (groups_of ps) = groups_of ps \<longrightarrow>
        consumePairs ord False ps = ([], False, Some (Slice (spec_batch ps))))"
proof (intro conjI impI)
  have m: "fst (consumeLoop False [] ps) = groups_of ps"
    by (rule consumeLoop_groups)
  have e: "snd (consumeLoop False [] ps) = []"
    by (rule batch_no_emission)
  show r: "consumePairs ord False ps
      = ([], False, Some (Slice (flatten_dupes (ord (groups_of ps)))))"
    using m e by (simp add: consumePairs_def case_prod_beta processResults_flatten)
  show "mset (flatten_dupes (ord (groups_of ps))) = mset (spec_batch ps)"
    if "mset (ord (groups_of ps)) = mset (groups_of ps)"
    unfolding spec_batch_def using that by (rule mset_flatten_perm)
  show "consumePairs ord False ps = ([], False, Some (Slice (spec_batch ps)))"
    if "ord (groups_of ps) = groups_of ps"
    using r that by (simp only: spec_batch_def)
qed


theorem C3_batch_result_witness:
  "mset (rev (groups_of ex_pairs)) = mset (groups_of ex_pairs)
   \<and> consumePairs rev False ex_pairs = ([], False, Some (Slice [''b'', ''d'', ''a'', ''c'']))
   \<and> mset [''b'', ''d'', ''a'', ''c''] = mset (spec_batch ex_pairs)
   \<and> consumePairs (\<lambda>m. m) False ex_pairs = ([], False, Some (Slice [''a'', ''c'', ''b'', ''d'']))"
proof -
  have f1: "flatten_dupes (rev (groups_of ex_pairs)) = [''b'', ''d'', ''a'', ''c'']"
    by (simp add: ex_groups flatten_dupes_def)
  have f2: "spec_batch ex_pairs = [''a'', ''c'', ''b'', ''d'']"
    by (simp add: spec_batch_def ex_groups flatten_dupes_def)
  have p: "mset (rev (groups_of ex_pairs)) = mset (groups_of ex_pairs)"
    by simp
  from C3_batch_result [of rev ex_pairs] p
  have "consumePairs rev False ex_pairs = ([], False, Some (Slice [''b'', ''d'', ''a'', ''c'']))"
    and "mset [''b'', ''d'', ''a'', ''c''] = mset (spec_batch ex_pairs)"
    unfolding f1 by blast+
  moreover from C3_batch_result [of "\<lambda>m. m" ex_pairs]
  have "consumePairs (\<lambda>m. m) False ex_pairs = ([], False, Some (Slice [''a'', ''c'', ''b'', ''d'']))"
    unfolding f2 by blast
  ultimately show ?thesis using p by blast
qed

text \<open>
  C9. In streaming mode the paths sent on \<open>dupesChan\<close>, together with the members of
  the groups that have one member, are the paths of the pairs consumed, each as often:
  a pair's path is sent at most once, so when the pairs have different paths no path is
  sent twice. This holds for \<open>consumePairs\<close> on any sequence of pairs, and in every
  state of a streaming search for the paths sent so far and the pairs produced so far.
\<close>

theorem C9_emitted_once:
  "mset (fst (consumePairs ord True ps)) + mset (concat (map (sing ps) (discovery_keys ps)))
     = mset (map path ps)
   \<and> mset (fst (consumePairs ord True ps)) \<subseteq># mset (map path ps)
   \<and> (distinct (map path ps) \<longrightarrow> distinct (fst (consumePairs ord True ps)))
   \<and> (s = exec w init evs \<and> streaming w \<longrightarrow>
        mset (dupes s) \<subseteq># mset (map path (sent s))
        \<and> (distinct (map path (sent s)) \<longrightarrow> distinct (dupes s)))"
proof -
  have out: "fst (consumePairs ord True ps) = snd (consumeLoop True [] ps)"
    by (simp add: consumePairs_def case_prod_beta)
  have x: "mset (fst (consumePairs ord True ps))
      + mset (concat (map (sing ps) (discovery_keys ps))) = mset (map path ps)"
    unfolding out by (rule stream_mset)
  have a: "mset (fst (consumePairs ord True ps)) \<subseteq># mset (map path ps)"
    unfolding out by (rule stream_sub)
  have b: "distinct (map path ps) \<longrightarrow> distinct (fst (consumePairs ord True ps))"
  proof
    assume "distinct (map path ps)"
    with a show "distinct (fst (consumePairs ord True ps))" by (rule distinct_sub)
  qed
  have c: "mset (dupes s) \<subseteq># mset (map path (sent s))"
    if s: "s = exec w init evs" and st: "streaming w"
  proof -
    have i: "inv w s" unfolding s by (rule inv_reach)
    with st have "dupes s @ pending (cons s) = snd (consumeLoop True [] (seen s))"
      by (simp add: inv_def)
    then have "mset (dupes s) \<subseteq># mset (snd (consumeLoop True [] (seen s)))"
      by (metis mset_append mset_subset_eq_add_left)
    also have "\<dots> \<subseteq># mset (map path (seen s))" by (rule stream_sub)
    also have "\<dots> \<subseteq># mset (map path (sent s))"
      using i by (simp add: inv_def)
    finally show ?thesis .
  qed
  have d: "distinct (map path (sent s)) \<longrightarrow> distinct (dupes s)"
    if s: "s = exec w init evs" and st: "streaming w"
  proof
    assume "distinct (map path (sent s))"
    with c[OF s st] show "distinct (dupes s)" by (rule distinct_sub)
  qed
  from x a b c d show ?thesis by blast
qed

theorem C9_emitted_once_witness:
  "distinct (map path ex_pairs)
   \<and> fst (consumePairs rev True ex_pairs) = [''a'', ''c'', ''b'', ''d'']
   \<and> distinct (fst (consumePairs rev True ex_pairs))
   \<and> streaming (ex_world (StreamResults True))
   \<and> dupes (exec (ex_world (StreamResults True)) init (ex_walk @ ex_drain)) = [''r/a'', ''r/b'']
   \<and> distinct (map path (sent (exec (ex_world (StreamResults True)) init (ex_walk @ ex_drain))))
   \<and> distinct (dupes (exec (ex_world (StreamResults True)) init (ex_walk @ ex_drain)))"
proof -
  let ?w = "ex_world (StreamResults True)"
  let ?s = "exec ?w init (ex_walk @ ex_drain)"
  have d: "distinct (map path ex_pairs)"
    by (simp add: ex_pairs_def)
  have o: "fst (consumePairs rev True ex_pairs) = [''a'', ''c'', ''b'', ''d'']"
    by (simp add: ex_pairs_def consumePairs_def consumePair_def)
  have st: "streaming ?w"
    by (simp add: streaming_def ex_world_def)
  have s0: "exec ?w init ex_walk =
    \<lparr>mainpc = MClose None, lis = LInit, shutdown = SigEmpty, active = [], gerr = None,
     pairs = [\<lparr>key = ''1'', path = ''r/a''\<rparr>, \<lparr>key = ''1'', path = ''r/b''\<rparr>,
       \<lparr>key = ''2'', path = ''r/c''\<rparr>],
     pclosed = False, cons = CLoop, cmap = [], dupes = [], dclosed = False, results = None,
     sent = [\<lparr>key = ''1'', path = ''r/a''\<rparr>, \<lparr>key = ''1'', path = ''r/b''\<rparr>,
       \<lparr>key = ''2'', path = ''r/c''\<rparr>],
     seen = [], gens = [''r/a'', ''r/b'', ''r/c''], failed = []\<rparr>"
    by (rule ex_walk_state) simp
  have s: "dupes ?s = [''r/a'', ''r/b''] \<and> distinct (map path (sent ?s))"
    by (simp add: exec_append s0 ex_drain_def ex_world_simps main_step_def
        cons_step_def consumePair_def)
  from C9_emitted_once [of rev ex_pairs ?s ?w "ex_walk @ ex_drain"] d st s
  have "distinct (fst (consumePairs rev True ex_pairs))" and "distinct (dupes ?s)"
    by blast+
  with d o st s show ?thesis by blast
qed
















text \<open>
  C8 says that after an interrupt the search still terminates. With a limit of one
  worker it does not: the walker holds the only slot of the group, so its call of
  \<open>dup.g.Go\<close> for the first file never returns. Here the walker has reached that call;
  the interrupt is then received and the shutdown channel closed, and in every
  continuation the caller is still in \<open>Wait\<close>. (A producer that finds the search
  shutting down does return at once, with no error: \<open>producePair_cancelled\<close>; a
  check can also take the signal away from the listener: \<open>signal_taken_by_check\<close>.)
\<close>

theorem C8_one_worker_never_returns:
  "blocked ex_one_worker (exec ex_one_worker init ex_to_go)
   \<and> shutdown (exec ex_one_worker init
        (ex_to_go @ [EvListener, EvListener, EvSignal, EvListener])) = SigClosed
   \<and> (\<forall>evs. mainpc (exec ex_one_worker init (ex_to_go @ evs)) = MWait)"
proof (intro conjI allI)
  show b: "blocked ex_one_worker (exec ex_one_worker init ex_to_go)"
    by (simp add: ex_to_go_state blocked_def) (simp add: ex_one_worker_def ex_cfg_def)
  show "shutdown (exec ex_one_worker init
        (ex_to_go @ [EvListener, EvListener, EvSignal, EvListener])) = SigClosed"
    by (simp add: exec_append ex_to_go_state lis_step_def signal_step_def)
  fix evs
  from b have "blocked ex_one_worker (exec ex_one_worker (exec ex_one_worker init ex_to_go) evs)"
    by (rule blocked_exec)
  then show "mainpc (exec ex_one_worker init (ex_to_go @ evs)) = MWait"
    by (simp add: exec_append blocked_def)
qed

theorem C8_one_worker_never_returns_witness:
  "mainpc (exec ex_one_worker init (ex_to_go @ [EvListener, EvListener, EvSignal, EvListener,
     EvTask 0, EvMain, EvConsumer])) = MWait"
  using C8_one_worker_never_returns by blast

end
